theory Spec2Isabelle
  imports Complex_Main "HOL-Library.AList" "HOL-Library.Multiset"
begin

section \<open>Rainflow cycle counting (src/rainflow/rainflow.js)\<close>

text \<open>
  The program works on JavaScript numbers. A number is modelled as a rational (a finite
  double, with exact arithmetic: rounding, overflow and underflow of doubles are not
  modelled, and \<open>-0\<close> is identified with \<open>0\<close>), or one of the three non-finite values.
  Reading an array out of range gives \<open>undefined\<close>, which arithmetic converts to NaN.

  The sum, difference, product and quotient of two doubles are rounded and may overflow, so
  \<open>add\<close>, \<open>sub\<close>, \<open>mul\<close> and \<open>divide_js\<close> give the value of the code only where the exact result is a
  double. The comparison \<open>lt\<close>, \<open>max_js\<close>, \<open>abs_js\<close> and \<open>ceil_js\<close> are exact on doubles. The general
  statements below therefore speak of the numbers through these operations, as the code
  computes them, and their proofs use no property of the four rounded operations (but for
  the second half of C3, which takes the quotient of a finite number by a non-zero finite
  one as finite); the scenarios, witnesses and counterexamples evaluate them, on numbers
  where they are exact.
\<close>

subsection \<open>JavaScript numbers\<close>

datatype jsnum = Fin rat | PInf | NInf | NaN

datatype jsval = Undefined | Number jsnum

fun ToNumber :: "jsval \<Rightarrow> jsnum" where
  "ToNumber Undefined = NaN"
| "ToNumber (Number n) = n"

fun neg :: "jsnum \<Rightarrow> jsnum" where
  "neg (Fin a) = Fin (- a)"
| "neg PInf = NInf"
| "neg NInf = PInf"
| "neg NaN = NaN"

fun add :: "jsnum \<Rightarrow> jsnum \<Rightarrow> jsnum" where
  "add NaN _ = NaN"
| "add _ NaN = NaN"
| "add (Fin a) (Fin b) = Fin (a + b)"
| "add PInf NInf = NaN"
| "add NInf PInf = NaN"
| "add PInf _ = PInf"
| "add NInf _ = NInf"
| "add (Fin a) PInf = PInf"
| "add (Fin a) NInf = NInf"

definition sub :: "jsnum \<Rightarrow> jsnum \<Rightarrow> jsnum" where
  "sub a b = add a (neg b)"

fun mul :: "jsnum \<Rightarrow> jsnum \<Rightarrow> jsnum" where
  "mul NaN _ = NaN"
| "mul _ NaN = NaN"
| "mul (Fin a) (Fin b) = Fin (a * b)"
| "mul (Fin a) PInf = (if a = 0 then NaN else if 0 < a then PInf else NInf)"
| "mul (Fin a) NInf = (if a = 0 then NaN else if 0 < a then NInf else PInf)"
| "mul PInf (Fin b) = (if b = 0 then NaN else if 0 < b then PInf else NInf)"
| "mul NInf (Fin b) = (if b = 0 then NaN else if 0 < b then NInf else PInf)"
| "mul PInf PInf = PInf"
| "mul PInf NInf = NInf"
| "mul NInf PInf = NInf"
| "mul NInf NInf = PInf"

text \<open>Division; a zero divisor is taken as \<open>+0\<close>.\<close>

fun divide_js :: "jsnum \<Rightarrow> jsnum \<Rightarrow> jsnum" where
  "divide_js NaN _ = NaN"
| "divide_js _ NaN = NaN"
| "divide_js (Fin a) (Fin b) =
     (if b \<noteq> 0 then Fin (a / b) else if a = 0 then NaN else if 0 < a then PInf else NInf)"
| "divide_js (Fin a) PInf = Fin 0"
| "divide_js (Fin a) NInf = Fin 0"
| "divide_js PInf (Fin b) = (if 0 \<le> b then PInf else NInf)"
| "divide_js NInf (Fin b) = (if 0 \<le> b then NInf else PInf)"
| "divide_js PInf PInf = NaN"
| "divide_js PInf NInf = NaN"
| "divide_js NInf PInf = NaN"
| "divide_js NInf NInf = NaN"

text \<open>\<open>Math.abs\<close>, \<open>Math.ceil\<close>, \<open>Math.max\<close> of two arguments, and the comparison \<open><\<close>.\<close>

fun abs_js :: "jsnum \<Rightarrow> jsnum" where
  "abs_js (Fin a) = Fin \<bar>a\<bar>"
| "abs_js PInf = PInf"
| "abs_js NInf = PInf"
| "abs_js NaN = NaN"

fun ceil_js :: "jsnum \<Rightarrow> jsnum" where
  "ceil_js (Fin a) = Fin (of_int \<lceil>a\<rceil>)"
| "ceil_js PInf = PInf"
| "ceil_js NInf = NInf"
| "ceil_js NaN = NaN"

fun lt :: "jsnum \<Rightarrow> jsnum \<Rightarrow> bool" where
  "lt NaN _ = False"
| "lt _ NaN = False"
| "lt (Fin a) (Fin b) = (a < b)"
| "lt (Fin a) PInf = True"
| "lt (Fin a) NInf = False"
| "lt PInf _ = False"
| "lt NInf NInf = False"
| "lt NInf _ = True"

fun max_js :: "jsnum \<Rightarrow> jsnum \<Rightarrow> jsnum" where
  "max_js NaN _ = NaN"
| "max_js _ NaN = NaN"
| "max_js a b = (if lt a b then b else a)"

text \<open>Strict equality \<open>===\<close>: NaN equals nothing, \<open>undefined\<close> equals only itself.\<close>

fun strict_eq :: "jsval \<Rightarrow> jsval \<Rightarrow> bool" where
  "strict_eq Undefined Undefined = True"
| "strict_eq (Number a) (Number b) = (a \<noteq> NaN \<and> a = b)"
| "strict_eq _ _ = False"

text \<open>\<open>series[i]\<close>: \<open>undefined\<close> out of range.\<close>

definition index_js :: "jsnum list \<Rightarrow> nat \<Rightarrow> jsval" where
  "index_js series i = (if i < length series then Number (series ! i) else Undefined)"

subsection \<open>Reversal extraction\<close>

text \<open>A reversal point is the array \<open>[i, x]\<close>.\<close>

type_synonym point = "int \<times> jsval"

text \<open>
  The \<open>for\<close> loop of \<open>reversals\<close>, from position \<open>i\<close> over the samples still to be read;
  its state is \<open>xLast\<close>, \<open>x\<close>, \<open>dLast\<close> and \<open>result\<close>.
\<close>

fun reversals_loop ::
  "int \<Rightarrow> jsnum list \<Rightarrow> jsval \<times> jsval \<times> jsnum \<times> point list \<Rightarrow> jsval \<times> jsval \<times> jsnum \<times> point list"
where
  "reversals_loop i [] st = st"
| "reversals_loop i (xNext # rest) (xLast, x, dLast, result) =
     (if strict_eq (Number xNext) x then reversals_loop (i + 1) rest (xLast, x, dLast, result)
      else
        let dNext = sub xNext (ToNumber x);
            result' = (if lt (mul dLast dNext) (Fin 0) then result @ [(i, x)] else result)
        in reversals_loop (i + 1) rest (x, Number xNext, dNext, result'))"

definition reversals :: "jsnum list \<Rightarrow> point list" where
  "reversals series =
     (let xLast = index_js series 0;
          x = index_js series 1;
          dLast = sub (ToNumber x) (ToNumber xLast);
          result = [(0, xLast)];
          (xLast', x', dLast', result') = reversals_loop 1 (drop 1 series) (xLast, x, dLast, result)
      in result' @ [(int (length series) - 1, x')])"

subsection \<open>Cycle extraction\<close>

text \<open>A cycle is the array \<open>[rng, mean, count, i1, i2]\<close>; \<open>count\<close> is the literal 0.5 or 1.0.\<close>

record cycle =
  rng :: jsnum
  mean :: jsnum
  count :: rat
  i1 :: int
  i2 :: int

definition formatOutput :: "point \<Rightarrow> point \<Rightarrow> rat \<Rightarrow> cycle" where
  "formatOutput point1 point2 cnt =
     (let x1 = ToNumber (snd point1); x2 = ToNumber (snd point2)
      in \<lparr>rng = abs_js (sub x1 x2), mean = mul (Fin (1 / 2)) (add x1 x2), count = cnt,
          i1 = fst point1, i2 = fst point2\<rparr>)"

text \<open>\<open>X\<close> and \<open>Y\<close> of the three newest points of the stack (the newest point is the last).\<close>

definition top_X :: "point list \<Rightarrow> jsnum" where
  "top_X points =
     abs_js (sub (ToNumber (snd (points ! (length points - 1))))
                 (ToNumber (snd (points ! (length points - 2)))))"

definition top_Y :: "point list \<Rightarrow> jsnum" where
  "top_Y points =
     abs_js (sub (ToNumber (snd (points ! (length points - 2))))
                 (ToNumber (snd (points ! (length points - 3)))))"

text \<open>The inner \<open>while (points.length >= 3)\<close> loop; \<open>shift\<close> is \<open>tl\<close>, \<open>pop\<close> is \<open>butlast\<close>.\<close>

function closeLoop :: "point list \<Rightarrow> cycle list \<Rightarrow> point list \<times> cycle list" where
  "closeLoop points cycles =
     (if 3 \<le> length points then
        if lt (top_X points) (top_Y points) then (points, cycles)
        else if length points = 3 then
          closeLoop (tl points) (cycles @ [formatOutput (points ! 0) (points ! 1) (1 / 2)])
        else
          closeLoop (butlast (butlast (butlast points)) @ [last points])
            (cycles @ [formatOutput (points ! (length points - 3)) (points ! (length points - 2)) 1])
      else (points, cycles))"
  by pat_completeness auto

termination
  by (relation "measure (\<lambda>(points, cycles). length points)") auto

text \<open>One turn of the \<open>for ... of reversals(series)\<close> loop: push the point, then close cycles.\<close>

definition feed :: "point list \<times> cycle list \<Rightarrow> point \<Rightarrow> point list \<times> cycle list" where
  "feed st point = closeLoop (fst st @ [point]) (snd st)"

text \<open>The final \<open>while (points.length > 1)\<close> loop.\<close>

fun drain :: "point list \<Rightarrow> cycle list \<Rightarrow> cycle list" where
  "drain (p # q # rest) cycles = drain (q # rest) (cycles @ [formatOutput p q (1 / 2)])"
| "drain points cycles = cycles"

definition extractCycles_from :: "point list \<Rightarrow> cycle list" where
  "extractCycles_from revs = (let (points, cycles) = foldl feed ([], []) revs in drain points cycles)"

definition extractCycles :: "jsnum list \<Rightarrow> cycle list" where
  "extractCycles series = extractCycles_from (reversals series)"

subsection \<open>Aggregation\<close>

text \<open>
  The object \<open>counts\<close>: its properties in creation order. A key is the number the source
  indexes with; the property name is that number's string, and two numbers of this model
  have the same string exactly when they are equal. A total is a sum of \<open>count\<close>s. An
  entry that \<open>Object.entries\<close> returns holds the key as that string; here it holds the number.
\<close>

type_synonym counts = "(jsnum \<times> rat) list"

text \<open>\<open>counts[k] || 0\<close>\<close>

definition or0 :: "counts \<Rightarrow> jsnum \<Rightarrow> rat" where
  "or0 counts k = (case map_of counts k of None \<Rightarrow> 0 | Some v \<Rightarrow> v)"

text \<open>\<open>counts[k] = (counts[k] || 0) + count\<close>\<close>

definition accumulate :: "jsnum \<Rightarrow> rat \<Rightarrow> counts \<Rightarrow> counts" where
  "accumulate k cnt counts = AList.update k (or0 counts k + cnt) counts"

text \<open>The first \<open>for\<close> loop of the binning branch; its state is \<open>counts\<close> and \<open>nmax\<close>.\<close>

fun bin_loop :: "jsnum \<Rightarrow> (jsnum \<times> rat) list \<Rightarrow> counts \<times> jsnum \<Rightarrow> counts \<times> jsnum" where
  "bin_loop binsize [] st = st"
| "bin_loop binsize ((r, cnt) # cycles) (counts, nmax) =
     (let n = ceil_js (divide_js r binsize)
      in bin_loop binsize cycles (accumulate (mul n binsize) cnt counts, max_js n nmax))"

text \<open>\<open>counts[k] = counts[k] || 0\<close>\<close>

definition ensure :: "jsnum \<Rightarrow> counts \<Rightarrow> counts" where
  "ensure k counts = AList.update k (or0 counts k) counts"

text \<open>
  The second loop, \<open>for (let i = 1; i < nmax; i++)\<close>. It does not end when \<open>nmax\<close> is
  infinite, so the result is optional: \<open>None\<close> is a loop that never returns. The counter
  is an integer here. The counter of the source is a double: it takes the same values up to
  \<open>2^53\<close> and no longer increases from there on, so this loop is the loop of the source
  when \<open>nmax\<close> is at most \<open>2^53\<close> (the predicate \<open>reachable\<close> below).
\<close>

partial_function (option) densify :: "jsnum \<Rightarrow> jsnum \<Rightarrow> int \<Rightarrow> counts \<Rightarrow> counts option" where
  "densify binsize nmax i counts =
     (if lt (Fin (of_int i)) nmax then
        densify binsize nmax (i + 1) (ensure (mul (Fin (of_int i)) binsize) counts)
      else Some counts)"

declare densify.simps [code]

text \<open>The loop of the branch without binning.\<close>

fun raw_loop :: "(jsnum \<times> rat) list \<Rightarrow> counts \<Rightarrow> counts" where
  "raw_loop [] counts = counts"
| "raw_loop ((r, cnt) # cycles) counts = raw_loop cycles (accumulate r cnt counts)"

text \<open>
  \<open>Object.entries\<close> lists the properties whose name is an array index (an integer from 0
  to \<open>2^32 - 2\<close>) first, in ascending order, then the others in creation order.
\<close>

fun is_array_index :: "jsnum \<Rightarrow> bool" where
  "is_array_index (Fin q) = (of_int \<lfloor>q\<rfloor> = q \<and> 0 \<le> q \<and> q < 2 ^ 32 - 1)"
| "is_array_index _ = False"

fun the_Fin :: "jsnum \<Rightarrow> rat" where
  "the_Fin (Fin q) = q"
| "the_Fin _ = 0"

definition entries :: "counts \<Rightarrow> (jsnum \<times> rat) list" where
  "entries counts =
     sort_key (\<lambda>e. the_Fin (fst e)) (filter (\<lambda>e. is_array_index (fst e)) counts)
     @ filter (\<lambda>e. \<not> is_array_index (fst e)) counts"

text \<open>
  \<open>.sort((a, b) => a[0] - b[0])\<close>, as a stable insertion sort: \<open>a\<close> goes behind \<open>b\<close> when the
  comparator is positive. (With a NaN key the comparator is not consistent and the order of
  an engine's sort is its own; no statement below is about that order.)
\<close>

definition comparator :: "jsnum \<times> rat \<Rightarrow> jsnum \<times> rat \<Rightarrow> jsnum" where
  "comparator a b = sub (fst a) (fst b)"

fun insert_sorted :: "jsnum \<times> rat \<Rightarrow> (jsnum \<times> rat) list \<Rightarrow> (jsnum \<times> rat) list" where
  "insert_sorted a [] = [a]"
| "insert_sorted a (b # bs) =
     (if lt (Fin 0) (comparator a b) then b # insert_sorted a bs else a # b # bs)"

definition sort_js :: "(jsnum \<times> rat) list \<Rightarrow> (jsnum \<times> rat) list" where
  "sort_js xs = foldr insert_sorted xs []"

text \<open>
  The outcome of a call: \<open>None\<close> when it does not return, \<open>Some (Inl e)\<close> when it throws
  \<open>e\<close>, \<open>Some (Inr h)\<close> when it returns \<open>h\<close>. The source has no \<open>throw\<close>, so no branch below
  gives \<open>Inl\<close>.
\<close>

datatype error = InvalidInput

text \<open>
  The body of \<open>countCycles\<close> after \<open>cycles\<close> is computed; \<open>binsize\<close> is \<open>None\<close> for \<open>null\<close>.
\<close>

definition aggregate :: "(jsnum \<times> rat) list \<Rightarrow> jsnum option \<Rightarrow> (error + (jsnum \<times> rat) list) option" where
  "aggregate cycles binsize =
     (case binsize of
        Some b \<Rightarrow>
          (let (counts, nmax) = bin_loop b cycles ([], Fin 0)
           in case densify b nmax 1 counts of
                None \<Rightarrow> None
              | Some counts' \<Rightarrow> Some (Inr (sort_js (entries counts'))))
      | None \<Rightarrow> Some (Inr (sort_js (entries (raw_loop cycles [])))))"

definition countCycles :: "jsnum list \<Rightarrow> jsnum option \<Rightarrow> (error + (jsnum \<times> rat) list) option" where
  "countCycles series binsize =
     aggregate (map (\<lambda>c. (rng c, count c)) (extractCycles series)) binsize"

subsection \<open>Notions used in the statements\<close>

text \<open>\<open>Number.isFinite\<close>\<close>

fun is_finite :: "jsnum \<Rightarrow> bool" where
  "is_finite (Fin q) = True"
| "is_finite _ = False"

text \<open>The range between two neighbours of the stack: \<open>|p\<^sub>i\<^sub>+\<^sub>1.value - p\<^sub>i.value|\<close>.\<close>

definition gap :: "point list \<Rightarrow> nat \<Rightarrow> jsnum" where
  "gap points i = abs_js (sub (ToNumber (snd (points ! (i + 1)))) (ToNumber (snd (points ! i))))"

definition decreasing_gaps :: "point list \<Rightarrow> bool" where
  "decreasing_gaps points = (\<forall>i. i + 2 < length points \<longrightarrow> lt (gap points (i + 1)) (gap points i))"

text \<open>
  The working stack of \<open>extractCycles\<close> when the first \<open>n\<close> reversals have been pushed
  and the inner loop has exited, that is, when the next reversal is about to be pushed.
\<close>

definition stack_after :: "point list \<Rightarrow> nat \<Rightarrow> point list" where
  "stack_after revs n = fst (foldl feed ([], []) (take n revs))"


text \<open>The summed \<open>count\<close> of the cycles that satisfy \<open>P\<close>.\<close>

definition total_where :: "(jsnum \<times> rat \<Rightarrow> bool) \<Rightarrow> (jsnum \<times> rat) list \<Rightarrow> rat" where
  "total_where P cycles = sum_list (map snd (filter P cycles))"

text \<open>
  The bucket number \<open>n = Math.ceil(rng / binsize)\<close> of the binning loop, and its key
  \<open>n * binsize\<close>.
\<close>

definition bucket_of :: "jsnum \<Rightarrow> jsnum \<Rightarrow> jsnum" where
  "bucket_of binsize r = ceil_js (divide_js r binsize)"

definition bin_key :: "jsnum \<Rightarrow> jsnum \<Rightarrow> jsnum" where
  "bin_key binsize r = mul (bucket_of binsize r) binsize"

text \<open>
  A bucket number that the counter \<open>i\<close> of the second loop can pass: a finite number, at
  most \<open>2^53\<close>. The counter of the source is a double, which \<open>i++\<close> no longer increases from
  \<open>2^53\<close> on; up to there it is the integer counter of \<open>densify\<close>.
\<close>

fun reachable :: "jsnum \<Rightarrow> bool" where
  "reachable (Fin q) = (q \<le> 2 ^ 53)"
| "reachable _ = False"


text \<open>
  A range that did not overflow: a finite number, at most the largest double
  \<open>2^1024 - 2^971\<close>.
\<close>

fun no_overflow :: "jsnum \<Rightarrow> bool" where
  "no_overflow (Fin q) = (q \<le> 2 ^ 1024 - 2 ^ 971)"
| "no_overflow _ = False"

text \<open>A cycle that \<open>formatOutput\<close> makes of two points of \<open>S\<close>, as a half or a full cycle.\<close>

definition made_of :: "point set \<Rightarrow> cycle \<Rightarrow> bool" where
  "made_of S c = (\<exists>p\<in>S. \<exists>q\<in>S. c = formatOutput p q (1 / 2) \<or> c = formatOutput p q 1)"

declare closeLoop.simps [simp del]

section \<open>Properties\<close>

subsection \<open>Unfolding the closure loop\<close>

lemma closeLoop_stop:
  "\<not> 3 \<le> length pts \<or> lt (top_X pts) (top_Y pts) \<Longrightarrow> closeLoop pts cyc = (pts, cyc)"
  by (subst closeLoop.simps) auto

lemma closeLoop_half:
  "length pts = 3 \<Longrightarrow> \<not> lt (top_X pts) (top_Y pts) \<Longrightarrow>
   closeLoop pts cyc = closeLoop (tl pts) (cyc @ [formatOutput (pts ! 0) (pts ! 1) (1 / 2)])"
  by (subst closeLoop.simps) simp

lemma closeLoop_full:
  "3 < length pts \<Longrightarrow> \<not> lt (top_X pts) (top_Y pts) \<Longrightarrow>
   closeLoop pts cyc =
     closeLoop (butlast (butlast (butlast pts)) @ [last pts])
       (cyc @ [formatOutput (pts ! (length pts - 3)) (pts ! (length pts - 2)) 1])"
  by (subst closeLoop.simps) simp

text \<open>
  C5: with at least three points on the stack, \<open>p1\<close>, \<open>p2\<close>, \<open>p3\<close> the three newest,
  \<open>X = |p3 - p2|\<close> and \<open>Y = |p2 - p1|\<close>: if \<open>X < Y\<close> the loop stops and leaves the stack and
  the cycles as they are; otherwise, with exactly three points, a half cycle (count 1/2) of
  \<open>p1\<close>, \<open>p2\<close> is emitted and only the oldest point is removed (the loop then stops on the
  two points left); otherwise a full cycle (count 1) of \<open>p1\<close>, \<open>p2\<close> is emitted, the three
  newest points are removed and \<open>p3\<close> is pushed back on the untouched points below, and the
  loop goes on.
\<close>

theorem closeLoop_step:
  "closeLoop (below @ [p1, p2, p3]) cycles =
     (if lt (abs_js (sub (ToNumber (snd p3)) (ToNumber (snd p2))))
            (abs_js (sub (ToNumber (snd p2)) (ToNumber (snd p1))))
      then (below @ [p1, p2, p3], cycles)
      else if below = [] then
        ([p2, p3],
         cycles @ [\<lparr>rng = abs_js (sub (ToNumber (snd p1)) (ToNumber (snd p2))),
                     mean = mul (Fin (1 / 2)) (add (ToNumber (snd p1)) (ToNumber (snd p2))),
                     count = 1 / 2, i1 = fst p1, i2 = fst p2\<rparr>])
      else
        closeLoop (below @ [p3])
          (cycles @ [\<lparr>rng = abs_js (sub (ToNumber (snd p1)) (ToNumber (snd p2))),
                      mean = mul (Fin (1 / 2)) (add (ToNumber (snd p1)) (ToNumber (snd p2))),
                      count = 1, i1 = fst p1, i2 = fst p2\<rparr>]))"
proof -
  have X: "top_X (below @ [p1, p2, p3]) = abs_js (sub (ToNumber (snd p3)) (ToNumber (snd p2)))"
    by (simp add: top_X_def nth_append)
  have Y: "top_Y (below @ [p1, p2, p3]) = abs_js (sub (ToNumber (snd p2)) (ToNumber (snd p1)))"
    by (simp add: top_Y_def nth_append)
  have two: "closeLoop [p2, p3] c = ([p2, p3], c)" for c
    by (subst closeLoop.simps) simp
  have pop: "butlast (butlast (butlast (below @ [p1, p2, p3]))) @ [last (below @ [p1, p2, p3])] = below @ [p3]"
    by (simp add: butlast_append)
  have n3: "(below @ [p1, p2, p3]) ! (length (below @ [p1, p2, p3]) - 3) = p1"
    by (simp add: nth_append)
  have n2: "(below @ [p1, p2, p3]) ! (length (below @ [p1, p2, p3]) - 2) = p2"
    by (simp add: nth_append)
  show ?thesis
  proof (cases "below = []")
    case True
    then show ?thesis
      by (subst closeLoop.simps) (simp add: X Y two formatOutput_def Let_def top_X_def top_Y_def)
  next
    case False
    then have len: "length (below @ [p1, p2, p3]) \<noteq> 3" "3 \<le> length (below @ [p1, p2, p3])" by auto
    show ?thesis
      apply (subst closeLoop.simps)
      apply (simp only: X Y pop n3 n2 len if_True if_False False)
      apply (simp add: formatOutput_def Let_def)
      done
  qed
qed

theorem closeLoop_step_witness:
  "closeLoop ([(0, Number (Fin 0))] @ [(2, Number (Fin 5)), (3, Number (Fin 2)), (4, Number (Fin 12))]) []
     = ([(0, Number (Fin 0)), (4, Number (Fin 12))],
        [\<lparr>rng = Fin 3, mean = Fin (7 / 2), count = 1, i1 = 2, i2 = 3\<rparr>])"
  using closeLoop_step[of "[(0, Number (Fin 0))]" "(2, Number (Fin 5))" "(3, Number (Fin 2))"
      "(4, Number (Fin 12))" "[]"]
  by (simp add: closeLoop_stop sub_def)

subsection \<open>Conservation of counts\<close>

lemma count_formatOutput [simp]: "count (formatOutput p q c) = c"
  by (simp add: formatOutput_def Let_def)

lemma closeLoop_conserve:
  "closeLoop pts cyc = (pts', cyc') \<Longrightarrow>
   2 * sum_list (map count cyc') + of_nat (length pts') = 2 * sum_list (map count cyc) + of_nat (length pts)"
proof (induction pts cyc arbitrary: pts' cyc' rule: closeLoop.induct)
  case (1 points cycles)
  show ?case
  proof (cases "3 \<le> length points \<and> \<not> lt (top_X points) (top_Y points)")
    case False
    with "1.prems" show ?thesis by (subst (asm) closeLoop.simps) (auto split: if_splits)
  next
    case True
    note T = True
    show ?thesis
    proof (cases "length points = 3")
      case True
      with T "1.prems" have
        "closeLoop (tl points) (cycles @ [formatOutput (points ! 0) (points ! 1) (1 / 2)]) = (pts', cyc')"
        by (subst (asm) closeLoop.simps) simp
      from "1.IH"(1)[OF _ _ True this] T True show ?thesis by simp
    next
      case False
      with T "1.prems" have
        "closeLoop (butlast (butlast (butlast points)) @ [last points])
            (cycles @ [formatOutput (points ! (length points - 3)) (points ! (length points - 2)) 1]) = (pts', cyc')"
        by (subst (asm) closeLoop.simps) simp
      from "1.IH"(2)[OF _ _ False this] T False show ?thesis by (simp add: of_nat_diff)
    qed
  qed
qed

lemma closeLoop_nonempty: "pts \<noteq> [] \<Longrightarrow> fst (closeLoop pts cyc) \<noteq> []"
proof (induction pts cyc rule: closeLoop.induct)
  case (1 points cycles)
  show ?case
  proof (cases "3 \<le> length points \<and> \<not> lt (top_X points) (top_Y points)")
    case False
    with "1.prems" show ?thesis by (subst closeLoop.simps) auto
  next
    case True
    note T = True
    show ?thesis
    proof (cases "length points = 3")
      case True
      then have "tl points \<noteq> []" by (cases points) auto
      from "1.IH"(1)[OF _ _ True this] T True show ?thesis by (subst closeLoop.simps) simp
    next
      case False
      from "1.IH"(2)[OF _ _ False] T False show ?thesis by (subst closeLoop.simps) simp
    qed
  qed
qed

lemma foldl_feed_conserve:
  "foldl feed (pts, cyc) revs = (pts', cyc') \<Longrightarrow>
   2 * sum_list (map count cyc') + of_nat (length pts')
     = 2 * sum_list (map count cyc) + of_nat (length pts) + of_nat (length revs)"
proof (induction revs arbitrary: pts cyc)
  case Nil
  then show ?case by simp
next
  case (Cons p revs)
  obtain pts1 cyc1 where f: "feed (pts, cyc) p = (pts1, cyc1)" by (cases "feed (pts, cyc) p")
  then have c: "closeLoop (pts @ [p]) cyc = (pts1, cyc1)" by (simp add: feed_def)
  from Cons.prems f have "foldl feed (pts1, cyc1) revs = (pts', cyc')" by simp
  from Cons.IH[OF this] closeLoop_conserve[OF c] show ?case by simp
qed

lemma foldl_feed_nonempty:
  "pts \<noteq> [] \<or> revs \<noteq> [] \<Longrightarrow> fst (foldl feed (pts, cyc) revs) \<noteq> []"
proof (induction revs arbitrary: pts cyc)
  case Nil
  then show ?case by simp
next
  case (Cons p revs)
  obtain pts1 cyc1 where f: "feed (pts, cyc) p = (pts1, cyc1)" by (cases "feed (pts, cyc) p")
  have "fst (closeLoop (pts @ [p]) cyc) \<noteq> []" by (rule closeLoop_nonempty) simp
  with f have "pts1 \<noteq> []" by (simp add: feed_def)
  then have "fst (foldl feed (pts1, cyc1) revs) \<noteq> []" by (intro Cons.IH) simp
  with f show ?case by simp
qed

lemma drain_conserve:
  "pts \<noteq> [] \<Longrightarrow>
   2 * sum_list (map count (drain pts cyc)) + 1 = 2 * sum_list (map count cyc) + of_nat (length pts)"
  by (induction pts cyc rule: drain.induct) auto

lemma extractCycles_from_conserve:
  assumes "revs \<noteq> []"
  shows "2 * sum_list (map count (extractCycles_from revs)) + 1 = of_nat (length revs)"
proof -
  obtain pts cyc where f: "foldl feed ([], []) revs = (pts, cyc)"
    by (cases "foldl feed ([], []) revs")
  from foldl_feed_nonempty[of "[]" revs "[]"] assms f have ne: "pts \<noteq> []" by simp
  from foldl_feed_conserve[OF f] drain_conserve[OF ne, of cyc] f
  show ?thesis by (simp add: extractCycles_from_def)
qed

lemma reversals_loop_length:
  "length (snd (snd (snd st))) \<le> length (snd (snd (snd (reversals_loop i xs st))))"
proof (induction i xs st rule: reversals_loop.induct)
  case (1 i st)
  then show ?case by simp
next
  case (2 i xNext rest xLast x dLast result)
  show ?case
  proof (cases "strict_eq (Number xNext) x")
    case True
    with 2(1) show ?thesis by simp
  next
    case False
    from 2(2)[OF False refl refl] False show ?thesis
      by (auto simp: Let_def split: if_splits)
  qed
qed

lemma reversals_nonempty: "reversals series \<noteq> []"
  by (simp add: reversals_def Let_def split: prod.splits)

lemma reversals_length_ge2: "2 \<le> length (reversals series)"
proof -
  obtain a b c r where l: "reversals_loop 1 (drop 1 series)
      (index_js series 0, index_js series 1,
       sub (ToNumber (index_js series 1)) (ToNumber (index_js series 0)), [(0, index_js series 0)]) = (a, b, c, r)"
    using prod_cases4 by blast
  from reversals_loop_length[of "(index_js series 0, index_js series 1,
       sub (ToNumber (index_js series 1)) (ToNumber (index_js series 0)), [(0, index_js series 0)])" 1 "drop 1 series"] l
  have "1 \<le> length r" by simp
  with l show ?thesis by (simp add: reversals_def Let_def)
qed

text \<open>
  C1, as amended: for every input signal, the sum of \<open>count\<close> over the emitted cycles is
  half of (the number of reversals minus 1).
\<close>

theorem conservation_half:
  "sum_list (map count (extractCycles series)) = (of_nat (length (reversals series)) - 1) / 2"
proof -
  have "2 * sum_list (map count (extractCycles series)) + 1 = of_nat (length (reversals series))"
    unfolding extractCycles_def by (rule extractCycles_from_conserve) (rule reversals_nonempty)
  then show ?thesis by (simp add: field_simps)
qed

theorem conservation_half_witness:
  "sum_list (map count (extractCycles [Fin 0, Fin 5, Fin 2, Fin 8, Fin 12])) = 3 / 2"
proof -
  have "length (reversals [Fin 0, Fin 5, Fin 2, Fin 8, Fin 12]) = 4" by code_simp
  with conservation_half[of "[Fin 0, Fin 5, Fin 2, Fin 8, Fin 12]"] show ?thesis by simp
qed

text \<open>
  C1 as stated fails: for the signal 0, 5, 2, 8, 12 there are four reversals and the counts
  sum to 3/2, not to 3.
\<close>

theorem conservation_counterexample:
  "sum_list (map count (extractCycles [Fin 0, Fin 5, Fin 2, Fin 8, Fin 12]))
     \<noteq> of_nat (length (reversals [Fin 0, Fin 5, Fin 2, Fin 8, Fin 12])) - 1"
  by code_simp

subsection \<open>The invariant of the working stack\<close>

lemma top_X_gap: "3 \<le> length pts \<Longrightarrow> top_X pts = gap pts (length pts - 2)"
  by (simp add: top_X_def gap_def Suc_diff_Suc numeral_3_eq_3 numeral_2_eq_2)

lemma top_Y_gap: "3 \<le> length pts \<Longrightarrow> top_Y pts = gap pts (length pts - 3)"
  by (simp add: top_Y_def gap_def Suc_diff_Suc numeral_3_eq_3 numeral_2_eq_2)

lemma gap_take: "i + 1 < k \<Longrightarrow> gap (take k pts) i = gap pts i"
  by (simp add: gap_def)

lemma decreasing_gaps_take: "decreasing_gaps pts \<Longrightarrow> decreasing_gaps (take k pts)"
  by (auto simp: decreasing_gaps_def gap_take)

lemma decreasing_gaps_butlast: "decreasing_gaps pts \<Longrightarrow> decreasing_gaps (butlast pts)"
  by (simp only: butlast_conv_take decreasing_gaps_take)

lemma decreasing_gaps_short: "length pts < 3 \<Longrightarrow> decreasing_gaps pts"
  by (simp add: decreasing_gaps_def)

lemma decreasing_gaps_top:
  assumes "3 \<le> length pts" "decreasing_gaps (butlast pts)" "lt (top_X pts) (top_Y pts)"
  shows "decreasing_gaps pts"
  unfolding decreasing_gaps_def
proof (intro allI impI)
  fix i assume i: "i + 2 < length pts"
  show "lt (gap pts (i + 1)) (gap pts i)"
  proof (cases "i + 3 = length pts")
    case True
    then have "length pts - 2 = i + 1" "length pts - 3 = i" by simp_all
    with assms(1,3) show ?thesis by (simp add: top_X_gap top_Y_gap)
  next
    case False
    with i have "i + 2 < length (butlast pts)" by simp
    with assms(2) have "lt (gap (butlast pts) (i + 1)) (gap (butlast pts) i)"
      by (simp add: decreasing_gaps_def)
    with i False show ?thesis by (simp add: butlast_conv_take gap_take)
  qed
qed

lemma closeLoop_decreasing:
  "decreasing_gaps (butlast pts) \<Longrightarrow> decreasing_gaps (fst (closeLoop pts cyc))"
proof (induction pts cyc rule: closeLoop.induct)
  case (1 points cycles)
  show ?case
  proof (cases "3 \<le> length points")
    case False
    then show ?thesis by (simp add: closeLoop_stop decreasing_gaps_short)
  next
    case ge: True
    show ?thesis
    proof (cases "lt (top_X points) (top_Y points)")
      case True
      with ge "1.prems" show ?thesis
        by (simp add: closeLoop_stop decreasing_gaps_top)
    next
      case nlt: False
      show ?thesis
      proof (cases "length points = 3")
        case True
        then have "decreasing_gaps (butlast (tl points))" by (simp add: decreasing_gaps_short)
        from "1.IH"(1)[OF ge nlt True this] show ?thesis
          by (simp only: closeLoop_half[OF True nlt])
      next
        case False
        with ge have gt: "3 < length points" by simp
        from "1.prems" have "decreasing_gaps (butlast (butlast (butlast (butlast points)) @ [last points]))"
          by (simp add: decreasing_gaps_butlast)
        from "1.IH"(2)[OF ge nlt False this] show ?thesis
          by (simp only: closeLoop_full[OF gt nlt])
      qed
    qed
  qed
qed

lemma feed_decreasing: "decreasing_gaps (fst st) \<Longrightarrow> decreasing_gaps (fst (feed st p))"
  by (simp add: feed_def closeLoop_decreasing)

lemma foldl_feed_decreasing:
  "decreasing_gaps (fst st) \<Longrightarrow> decreasing_gaps (fst (foldl feed st revs))"
  by (induction revs arbitrary: st) (simp_all add: feed_decreasing)

text \<open>
  C10: when the first \<open>n\<close> reversals have been pushed and the inner loop has exited (the
  moment the next reversal is pushed), any three consecutive points of the stack have
  \<open>|p\<^sub>i\<^sub>+\<^sub>2 - p\<^sub>i\<^sub>+\<^sub>1| < |p\<^sub>i\<^sub>+\<^sub>1 - p\<^sub>i|\<close>: the ranges strictly decrease from bottom to top.
\<close>

theorem stack_gaps_strictly_decreasing:
  "\<forall>i. i + 2 < length (stack_after (reversals series) n) \<longrightarrow>
     lt (gap (stack_after (reversals series) n) (i + 1)) (gap (stack_after (reversals series) n) i)"
proof -
  have "decreasing_gaps (fst (foldl feed ([], []) (take n (reversals series))))"
    by (rule foldl_feed_decreasing) (simp add: decreasing_gaps_short)
  then show ?thesis by (simp add: decreasing_gaps_def stack_after_def)
qed

theorem stack_gaps_strictly_decreasing_witness:
  "(0::nat) + 2 < length (stack_after (reversals [Fin 0, Fin 9, Fin 1, Fin 5, Fin 2, Fin 4, Fin 3, Fin 3]) 5)
   \<and> lt (gap (stack_after (reversals [Fin 0, Fin 9, Fin 1, Fin 5, Fin 2, Fin 4, Fin 3, Fin 3]) 5) (0 + 1))
         (gap (stack_after (reversals [Fin 0, Fin 9, Fin 1, Fin 5, Fin 2, Fin 4, Fin 3, Fin 3]) 5) 0)"
proof -
  have h: "(0::nat) + 2 < length (stack_after (reversals [Fin 0, Fin 9, Fin 1, Fin 5, Fin 2, Fin 4, Fin 3, Fin 3]) 5)"
    by code_simp
  from stack_gaps_strictly_decreasing[of "[Fin 0, Fin 9, Fin 1, Fin 5, Fin 2, Fin 4, Fin 3, Fin 3]" 5] h
  show ?thesis by blast
qed

subsection \<open>The scenarios\<close>

text \<open>
  C4: for the signal 0, 5, 2, 8, 12 the reversals are (0,0), (2,5), (3,2), (4,12); the cycles
  are (range 3, mean 3.5, count 1, start 2, end 3) then (range 12, mean 6, count 0.5, start 0,
  end 4); the histogram is (3, 1), (12, 0.5) without binning and (5, 1), (10, 0), (15, 0.5)
  with a bin width of 5.
\<close>

theorem scenario_0_5_2_8_12:
  "reversals [Fin 0, Fin 5, Fin 2, Fin 8, Fin 12]
     = [(0, Number (Fin 0)), (2, Number (Fin 5)), (3, Number (Fin 2)), (4, Number (Fin 12))]
   \<and> extractCycles [Fin 0, Fin 5, Fin 2, Fin 8, Fin 12]
     = [\<lparr>rng = Fin 3, mean = Fin (7 / 2), count = 1, i1 = 2, i2 = 3\<rparr>,
        \<lparr>rng = Fin 12, mean = Fin 6, count = 1 / 2, i1 = 0, i2 = 4\<rparr>]
   \<and> countCycles [Fin 0, Fin 5, Fin 2, Fin 8, Fin 12] None
     = Some (Inr [(Fin 3, 1), (Fin 12, 1 / 2)])
   \<and> countCycles [Fin 0, Fin 5, Fin 2, Fin 8, Fin 12] (Some (Fin 5))
     = Some (Inr [(Fin 5, 1), (Fin 10, 0), (Fin 15, 1 / 2)])"
proof (intro conjI)
  show "reversals [Fin 0, Fin 5, Fin 2, Fin 8, Fin 12]
     = [(0, Number (Fin 0)), (2, Number (Fin 5)), (3, Number (Fin 2)), (4, Number (Fin 12))]"
    by code_simp
  show "extractCycles [Fin 0, Fin 5, Fin 2, Fin 8, Fin 12]
     = [\<lparr>rng = Fin 3, mean = Fin (7 / 2), count = 1, i1 = 2, i2 = 3\<rparr>,
        \<lparr>rng = Fin 12, mean = Fin 6, count = 1 / 2, i1 = 0, i2 = 4\<rparr>]"
    by code_simp
  show "countCycles [Fin 0, Fin 5, Fin 2, Fin 8, Fin 12] None
     = Some (Inr [(Fin 3, 1), (Fin 12, 1 / 2)])"
    by code_simp
  show "countCycles [Fin 0, Fin 5, Fin 2, Fin 8, Fin 12] (Some (Fin 5))
     = Some (Inr [(Fin 5, 1), (Fin 10, 0), (Fin 15, 1 / 2)])"
    by code_simp
qed

text \<open>
  C6: for the signal 0, 5, 0 the reversals are (0,0), (2,5), (2,0), the last two sharing
  index 2 with different values; exactly two half cycles are emitted, each of range 5; the
  histogram without binning is (5, 1).
\<close>

theorem scenario_0_5_0:
  "reversals [Fin 0, Fin 5, Fin 0] = [(0, Number (Fin 0)), (2, Number (Fin 5)), (2, Number (Fin 0))]
   \<and> extractCycles [Fin 0, Fin 5, Fin 0]
     = [\<lparr>rng = Fin 5, mean = Fin (5 / 2), count = 1 / 2, i1 = 0, i2 = 2\<rparr>,
        \<lparr>rng = Fin 5, mean = Fin (5 / 2), count = 1 / 2, i1 = 2, i2 = 2\<rparr>]
   \<and> countCycles [Fin 0, Fin 5, Fin 0] None = Some (Inr [(Fin 5, 1)])"
proof (intro conjI)
  show "reversals [Fin 0, Fin 5, Fin 0] = [(0, Number (Fin 0)), (2, Number (Fin 5)), (2, Number (Fin 0))]"
    by code_simp
  show "extractCycles [Fin 0, Fin 5, Fin 0]
     = [\<lparr>rng = Fin 5, mean = Fin (5 / 2), count = 1 / 2, i1 = 0, i2 = 2\<rparr>,
        \<lparr>rng = Fin 5, mean = Fin (5 / 2), count = 1 / 2, i1 = 2, i2 = 2\<rparr>]"
    by code_simp
  show "countCycles [Fin 0, Fin 5, Fin 0] None = Some (Inr [(Fin 5, 1)])"
    by code_simp
qed

subsection \<open>The object \<open>counts\<close>\<close>


lemma sum_update: "sum_list (map snd (AList.update k v al)) = sum_list (map snd al) - or0 al k + v"
  by (induction al) (auto simp: or0_def)


lemma sum_accumulate: "sum_list (map snd (accumulate k c al)) = sum_list (map snd al) + c"
  by (simp add: accumulate_def sum_update)

lemma sum_ensure: "sum_list (map snd (ensure k al)) = sum_list (map snd al)"
  by (simp add: ensure_def sum_update)








subsection \<open>The loop without binning\<close>

lemma total_where_Nil [simp]: "total_where P [] = 0"
  by (simp add: total_where_def)

lemma total_where_Cons [simp]:
  "total_where P (c # cs) = (if P c then snd c else 0) + total_where P cs"
  by (simp add: total_where_def)

lemma raw_loop_sum:
  "sum_list (map snd (raw_loop cs al)) = sum_list (map snd al) + sum_list (map snd cs)"
  by (induction cs al rule: raw_loop.induct) (simp_all add: sum_accumulate)




subsection \<open>The binning loop\<close>

lemma bin_loop_Cons:
  "bin_loop b ((r, k) # cs) (al, m)
     = bin_loop b cs (accumulate (bin_key b r) k al, max_js (bucket_of b r) m)"
  by (simp add: Let_def bin_key_def bucket_of_def)

lemma bin_loop_sum:
  "sum_list (map snd (fst (bin_loop b cs st))) = sum_list (map snd (fst st)) + sum_list (map snd cs)"
proof (induction cs arbitrary: st)
  case Nil
  then show ?case by simp
next
  case (Cons c cs)
  obtain r k where c: "c = (r, k)" by (cases c)
  obtain al m where st: "st = (al, m)" by (cases st)
  show ?case unfolding c st bin_loop_Cons by (simp add: Cons.IH sum_accumulate)
qed




lemma max_js_Fin: "max_js (Fin q) (Fin m) = Fin (max q m)"
  by (simp add: max_def)

lemma reachable_finite: "reachable n \<Longrightarrow> is_finite n"
  by (cases n) simp_all

lemma bin_loop_nmax:
  assumes "list_all (\<lambda>c. is_finite (bucket_of b (fst c))) cs"
  shows "\<exists>M. snd (bin_loop b cs (al, Fin m)) = Fin M \<and> m \<le> M \<and>
           (\<forall>c\<in>set cs. \<forall>q. bucket_of b (fst c) = Fin q \<longrightarrow> q \<le> M)"
  using assms
proof (induction cs arbitrary: al m)
  case Nil
  then show ?case by simp
next
  case (Cons c cs)
  obtain r k where c: "c = (r, k)" by (cases c)
  with Cons.prems obtain q where q: "bucket_of b r = Fin q" by (cases "bucket_of b r") auto
  from Cons.prems have "list_all (\<lambda>c. is_finite (bucket_of b (fst c))) cs" by simp
  from Cons.IH[OF this, of "accumulate (bin_key b r) k al" "max q m"]
  obtain M where M: "snd (bin_loop b cs (accumulate (bin_key b r) k al, Fin (max q m))) = Fin M"
      "max q m \<le> M" "\<forall>c\<in>set cs. \<forall>q. bucket_of b (fst c) = Fin q \<longrightarrow> q \<le> M"
    by blast
  have "snd (bin_loop b (c # cs) (al, Fin m)) = Fin M"
    by (simp only: c bin_loop_Cons q max_js_Fin M(1))
  moreover have "m \<le> M" using M(2) by simp
  moreover have "\<forall>d\<in>set (c # cs). \<forall>p. bucket_of b (fst d) = Fin p \<longrightarrow> p \<le> M"
    using M(2,3) q c by auto
  ultimately show ?case by blast
qed

subsection \<open>Densification\<close>

lemma densify_Fin:
  "densify b (Fin m) i al = Some (fold (\<lambda>j. ensure (mul (Fin (of_int j)) b)) [i..\<lceil>m\<rceil> - 1] al)"
proof (induction "nat (\<lceil>m\<rceil> - i)" arbitrary: i al)
  case 0
  then have "\<not> of_int i < m" by (simp add: less_ceiling_iff[symmetric])
  moreover from 0 have "[i..\<lceil>m\<rceil> - 1] = []" by simp
  ultimately show ?case by (subst densify.simps) simp
next
  case (Suc n)
  then have lt: "of_int i < m" by (simp add: less_ceiling_iff[symmetric])
  from Suc have le: "i \<le> \<lceil>m\<rceil> - 1" by simp
  from Suc have "n = nat (\<lceil>m\<rceil> - (i + 1))" by simp
  from Suc.hyps(1)[OF this] lt show ?case
    by (subst densify.simps) (simp add: upto_rec1[OF le])
qed

lemma densify_not_PInf: "nmax \<noteq> PInf \<Longrightarrow> \<exists>al'. densify b nmax i al = Some al'"
proof (cases nmax)
  case (Fin m)
  then show ?thesis by (simp add: densify_Fin)
next
  case PInf
  assume "nmax \<noteq> PInf" with PInf show ?thesis by simp
next
  case NInf
  then show ?thesis by (subst densify.simps) simp
next
  case NaN
  then show ?thesis by (subst densify.simps) simp
qed

lemma densify_sum:
  assumes "densify b nmax i al = Some al'"
  shows "sum_list (map snd al') = sum_list (map snd al)"
proof (rule densify.raw_induct[where P = "\<lambda>b nmax i al al'. sum_list (map snd al') = sum_list (map snd al)",
      OF _ assms])
  fix f binsize nmax' j counts res
  assume IH: "\<And>x1 x2 x3 x4 y. f x1 x2 x3 x4 = Some y \<Longrightarrow> sum_list (map snd y) = sum_list (map snd x4)"
    and step: "(if lt (Fin (of_int j)) nmax'
          then f binsize nmax' (j + 1) (ensure (mul (Fin (of_int j)) binsize) counts)
          else Some counts) = Some res"
  show "sum_list (map snd res) = sum_list (map snd counts)"
  proof (cases "lt (Fin (of_int j)) nmax'")
    case True
    with step have "f binsize nmax' (j + 1) (ensure (mul (Fin (of_int j)) binsize) counts) = Some res"
      by simp
    from IH[OF this] show ?thesis by (simp add: sum_ensure)
  next
    case False
    with step show ?thesis by simp
  qed
qed

lemma fold_ensure_sum: "sum_list (map snd (fold ensure ks al)) = sum_list (map snd al)"
  by (induction ks arbitrary: al) (simp_all add: sum_ensure)




subsection \<open>Object.entries and sort\<close>

lemma entries_mset: "mset (entries al) = mset al"
  by (simp add: entries_def)

lemma insert_sorted_mset: "mset (insert_sorted a bs) = add_mset a (mset bs)"
  by (induction bs) simp_all

lemma sort_js_mset: "mset (sort_js xs) = mset xs"
  by (induction xs) (simp_all add: sort_js_def insert_sorted_mset)

lemma histogram_mset: "mset (sort_js (entries al)) = mset al"
  by (simp add: sort_js_mset entries_mset)


lemma histogram_sum: "sum_list (map snd (sort_js (entries al))) = sum_list (map snd al)"
proof -
  have "mset (map snd (sort_js (entries al))) = mset (map snd al)"
    by (simp add: histogram_mset)
  then show ?thesis by (metis sum_mset_sum_list)
qed











subsection \<open>The histogram\<close>



lemma aggregate_None: "aggregate cycles None = Some (Inr (sort_js (entries (raw_loop cycles []))))"
  by (simp add: aggregate_def)

lemma aggregate_Some:
  "aggregate cycles (Some b) =
     (case densify b (snd (bin_loop b cycles ([], Fin 0))) 1 (fst (bin_loop b cycles ([], Fin 0))) of
        None \<Rightarrow> None
      | Some counts' \<Rightarrow> Some (Inr (sort_js (entries counts'))))"
  by (simp add: aggregate_def split: prod.splits)



lemma aggregate_returns_finite:
  assumes "list_all (\<lambda>c. is_finite (bucket_of b (fst c))) cycles"
  shows "\<exists>h. aggregate cycles (Some b) = Some (Inr h)"
proof -
  from bin_loop_nmax[OF assms, of "[]" 0]
  obtain M where "snd (bin_loop b cycles ([], Fin 0)) = Fin M" by blast
  then show ?thesis by (simp add: aggregate_Some densify_Fin)
qed

lemma aggregate_returns_reachable:
  assumes "list_all (\<lambda>c. reachable (bucket_of b (fst c))) cycles"
  shows "\<exists>h. aggregate cycles (Some b) = Some (Inr h)"
proof (rule aggregate_returns_finite)
  show "list_all (\<lambda>c. is_finite (bucket_of b (fst c))) cycles"
    using assms by (simp add: list_all_iff reachable_finite)
qed

lemma aggregate_returns:
  assumes "list_all (\<lambda>c. is_finite (fst c)) cycles" and "w \<noteq> 0"
  shows "\<exists>h. aggregate cycles (Some (Fin w)) = Some (Inr h)"
proof (rule aggregate_returns_finite)
  have "is_finite (bucket_of (Fin w) r)" if "is_finite r" for r
    using that assms(2) by (cases r) (simp_all add: bucket_of_def)
  with assms(1) show "list_all (\<lambda>c. is_finite (bucket_of (Fin w) (fst c))) cycles"
    by (simp add: list_all_iff)
qed

lemma aggregate_sum:
  assumes "aggregate cycles binsize = Some (Inr h)"
  shows "sum_list (map snd h) = sum_list (map snd cycles)"
proof (cases binsize)
  case None
  with assms show ?thesis by (auto simp: aggregate_None histogram_sum raw_loop_sum)
next
  case (Some b)
  let ?st = "bin_loop b cycles ([], Fin 0)"
  from assms Some obtain al' where al': "densify b (snd ?st) 1 (fst ?st) = Some al'"
      and h: "h = sort_js (entries al')"
    by (auto simp: aggregate_Some split: option.splits)
  from densify_sum[OF al'] show ?thesis by (simp add: h histogram_sum bin_loop_sum)
qed



text \<open>
  C8: whenever the aggregator returns a histogram, with any bin width or without binning,
  its total counts sum to the sum of the counts of the cycles. It does return one without
  binning, and with binning when every bucket number \<open>ceil(range / binWidth)\<close> that the
  code computes is a finite number, at most \<open>2^53\<close>.
\<close>

theorem aggregation_preserves_mass:
  "(\<forall>h. aggregate cycles binsize = Some (Inr h) \<longrightarrow> sum_list (map snd h) = sum_list (map snd cycles))
   \<and> (\<exists>h. aggregate cycles None = Some (Inr h))
   \<and> (list_all (\<lambda>c. reachable (bucket_of b (fst c))) cycles
        \<longrightarrow> (\<exists>h. aggregate cycles (Some b) = Some (Inr h)))"
proof (intro conjI allI impI)
  fix h assume "aggregate cycles binsize = Some (Inr h)"
  then show "sum_list (map snd h) = sum_list (map snd cycles)" by (rule aggregate_sum)
next
  show "\<exists>h. aggregate cycles None = Some (Inr h)" by (simp add: aggregate_None)
next
  assume "list_all (\<lambda>c. reachable (bucket_of b (fst c))) cycles"
  then show "\<exists>h. aggregate cycles (Some b) = Some (Inr h)" by (rule aggregate_returns_reachable)
qed

theorem aggregation_preserves_mass_witness:
  "list_all (\<lambda>c. reachable (bucket_of (Fin 5) (fst c))) [(Fin 3, 1 :: rat), (Fin 12, 1 / 2)]
   \<and> aggregate [(Fin 3, 1), (Fin 12, 1 / 2)] (Some (Fin 5)) = Some (Inr [(Fin 5, 1), (Fin 10, 0), (Fin 15, 1 / 2)])
   \<and> sum_list (map snd [(Fin 5, 1), (Fin 10, 0), (Fin 15, 1 / 2 :: rat)] :: rat list)
       = sum_list (map snd [(Fin 3, 1), (Fin 12, 1 / 2 :: rat)])"
proof -
  have r: "list_all (\<lambda>c. reachable (bucket_of (Fin 5) (fst c))) [(Fin 3, 1 :: rat), (Fin 12, 1 / 2)]"
    by (simp add: bucket_of_def)
  have a: "aggregate [(Fin 3, 1), (Fin 12, 1 / 2)] (Some (Fin 5))
      = Some (Inr [(Fin 5, 1), (Fin 10, 0), (Fin 15, 1 / 2)])"
    by code_simp
  from aggregation_preserves_mass[of "[(Fin 3, 1), (Fin 12, 1 / 2)]" "Some (Fin 5)" "Fin 5"] a r
  show ?thesis by blast
qed

subsection \<open>No error, and the short and non-finite signals\<close>

lemma aggregate_no_error: "aggregate cycles binsize \<noteq> Some (Inl e)"
  by (cases binsize) (auto simp: aggregate_None aggregate_Some split: option.splits)

text \<open>
  C2, as amended: the core does not validate its input. For every signal, also one shorter
  than 2 or holding NaN or an infinity, no call fails with an error, and without binning a
  histogram is returned (the values \<open>undefined\<close> and NaN go into the ranges).
\<close>

theorem no_input_validation:
  "(\<forall>binsize e. countCycles series binsize \<noteq> Some (Inl e))
   \<and> (\<exists>h. countCycles series None = Some (Inr h))"
  by (simp add: countCycles_def aggregate_no_error aggregate_None)

theorem no_input_validation_witness:
  "countCycles [] (Some (Fin 5)) \<noteq> Some (Inl InvalidInput) \<and> (\<exists>h. countCycles [] None = Some (Inr h))"
  using no_input_validation[of "[]"] by blast

text \<open>
  C2 as stated fails: the signal 7 of length 1 gives the histogram (NaN, 0.5), and the
  signal 0, NaN, 3 gives (3, 0.5); neither call fails.
\<close>

theorem invalid_signal_counterexample:
  "length [Fin 7] < 2 \<and> countCycles [Fin 7] None = Some (Inr [(NaN, 1 / 2)])
   \<and> \<not> list_all is_finite [Fin 0, NaN, Fin 3]
   \<and> countCycles [Fin 0, NaN, Fin 3] None = Some (Inr [(Fin 3, 1 / 2)])"
proof (intro conjI)
  show "length [Fin 7] < 2" by simp
  show "countCycles [Fin 7] None = Some (Inr [(NaN, 1 / 2)])" by code_simp
  show "\<not> list_all is_finite [Fin 0, NaN, Fin 3]" by simp
  show "countCycles [Fin 0, NaN, Fin 3] None = Some (Inr [(Fin 3, 1 / 2)])" by code_simp
qed

subsection \<open>A bin width that is not positive\<close>

text \<open>
  C3, as amended: with a bin width \<open>w \<le> 0\<close> the aggregation does not fail with InvalidInput;
  with \<open>w < 0\<close> and finite ranges it returns a histogram.
\<close>

theorem nonpositive_binsize_no_error:
  assumes "w \<le> 0"
  shows "aggregate cycles (Some (Fin w)) \<noteq> Some (Inl InvalidInput)
         \<and> (w < 0 \<and> list_all (\<lambda>c. is_finite (fst c)) cycles \<longrightarrow>
              (\<exists>h. aggregate cycles (Some (Fin w)) = Some (Inr h)))"
  using aggregate_returns[of cycles w] by (auto simp: aggregate_no_error)

theorem nonpositive_binsize_no_error_witness:
  "(- 5 :: rat) \<le> 0 \<and> aggregate [(Fin 3, 1), (Fin 12, 1 / 2)] (Some (Fin (- 5))) \<noteq> Some (Inl InvalidInput)
   \<and> (\<exists>h. aggregate [(Fin 3, 1), (Fin 12, 1 / 2)] (Some (Fin (- 5))) = Some (Inr h))"
  using nonpositive_binsize_no_error[of "- 5" "[(Fin 3, 1), (Fin 12, 1 / 2)]"] by simp

text \<open>
  C3 as stated fails: with the bin width -5 the cycles of ranges 3 and 12 give the histogram
  (0, 1), (10, 0.5).
\<close>

theorem nonpositive_binsize_counterexample:
  "(- 5 :: rat) \<le> 0 \<and>
   aggregate [(Fin 3, 1), (Fin 12, 1 / 2)] (Some (Fin (- 5))) = Some (Inr [(Fin 0, 1), (Fin 10, 1 / 2)])"
proof (intro conjI)
  show "(- 5 :: rat) \<le> 0" by simp
  show "aggregate [(Fin 3, 1), (Fin 12, 1 / 2)] (Some (Fin (- 5))) = Some (Inr [(Fin 0, 1), (Fin 10, 1 / 2)])"
    by code_simp
qed

text \<open>With the bin width 0 and a positive range, \<open>nmax\<close> is infinite and the second loop never ends.\<close>

lemma densify_Some_not_PInf:
  assumes "densify b nmax i al = Some al'"
  shows "nmax \<noteq> PInf"
proof (rule densify.raw_induct[where P = "\<lambda>b nmax i al al'. nmax \<noteq> PInf", OF _ assms])
  fix f binsize nmax' j counts res
  assume IH: "\<And>x1 x2 x3 x4 y. f x1 x2 x3 x4 = Some y \<Longrightarrow> x2 \<noteq> PInf"
    and step: "(if lt (Fin (of_int j)) nmax'
          then f binsize nmax' (j + 1) (ensure (mul (Fin (of_int j)) binsize) counts)
          else Some counts) = Some res"
  show "nmax' \<noteq> PInf"
  proof (cases "lt (Fin (of_int j)) nmax'")
    case True
    with step IH show ?thesis by simp
  next
    case False
    then show ?thesis by auto
  qed
qed

lemma densify_PInf: "densify b PInf i al = None"
  using densify_Some_not_PInf[of b PInf i al] by (cases "densify b PInf i al") auto

lemma zero_binsize_diverges: "aggregate [(Fin 3, 1)] (Some (Fin 0)) = None"
  by (simp add: aggregate_Some densify_PInf)


subsection \<open>Termination of the pipeline\<close>

lemma closeLoop_length:
  "closeLoop pts cyc = (pts', cyc') \<Longrightarrow> length cyc' + length pts' \<le> length cyc + length pts"
proof (induction pts cyc arbitrary: pts' cyc' rule: closeLoop.induct)
  case (1 points cycles)
  show ?case
  proof (cases "3 \<le> length points \<and> \<not> lt (top_X points) (top_Y points)")
    case False
    then have "closeLoop points cycles = (points, cycles)" by (intro closeLoop_stop) auto
    with "1.prems" show ?thesis by simp
  next
    case T: True
    then have ge: "3 \<le> length points" and nlt: "\<not> lt (top_X points) (top_Y points)" by simp_all
    show ?thesis
    proof (cases "length points = 3")
      case True
      from "1.prems"(1) have "closeLoop (tl points) (cycles @ [formatOutput (points ! 0) (points ! 1) (1 / 2)])
          = (pts', cyc')"
        by (simp only: closeLoop_half[OF True nlt])
      from "1.IH"(1)[OF ge nlt True this] True show ?thesis by simp
    next
      case False
      with ge have gt: "3 < length points" by simp
      from "1.prems"(1) have "closeLoop (butlast (butlast (butlast points)) @ [last points])
            (cycles @ [formatOutput (points ! (length points - 3)) (points ! (length points - 2)) 1])
          = (pts', cyc')"
        by (simp only: closeLoop_full[OF gt nlt])
      from "1.IH"(2)[OF ge nlt False this] gt show ?thesis by simp
    qed
  qed
qed

lemma foldl_feed_length:
  "foldl feed (pts, cyc) revs = (pts', cyc') \<Longrightarrow>
   length cyc' + length pts' \<le> length cyc + length pts + length revs"
proof (induction revs arbitrary: pts cyc)
  case Nil
  then show ?case by simp
next
  case (Cons p revs)
  obtain pts1 cyc1 where c: "closeLoop (pts @ [p]) cyc = (pts1, cyc1)"
    by (cases "closeLoop (pts @ [p]) cyc")
  from c have "feed (pts, cyc) p = (pts1, cyc1)" by (simp add: feed_def)
  with Cons.prems have "foldl feed (pts1, cyc1) revs = (pts', cyc')" by simp
  from Cons.IH[OF this] closeLoop_length[OF c] show ?case by simp
qed

lemma drain_length: "length (drain pts cyc) = length cyc + (length pts - 1)"
  by (induction pts cyc rule: drain.induct) simp_all

lemma extractCycles_from_length:
  assumes "revs \<noteq> []"
  shows "length (extractCycles_from revs) < length revs"
proof -
  obtain pts cyc where f: "foldl feed ([], []) revs = (pts, cyc)"
    by (cases "foldl feed ([], []) revs")
  from foldl_feed_nonempty[of "[]" revs "[]"] assms f have ne: "pts \<noteq> []" by simp
  then have pos: "0 < length pts" by simp
  have le: "length cyc + length pts \<le> length revs" using foldl_feed_length[OF f] by simp
  from pos le have "length cyc + (length pts - 1) < length revs" by linarith
  with f show ?thesis
    by (simp add: extractCycles_from_def drain_length)
qed

lemma reversals_loop_length_le:
  "length (snd (snd (snd (reversals_loop i xs st)))) \<le> length (snd (snd (snd st))) + length xs"
proof (induction i xs st rule: reversals_loop.induct)
  case (1 i st)
  then show ?case by simp
next
  case (2 i xNext rest xLast x dLast result)
  show ?case
  proof (cases "strict_eq (Number xNext) x")
    case True
    with 2(1) show ?thesis by simp
  next
    case False
    from 2(2)[OF False refl refl] False show ?thesis
      by (auto simp: Let_def split: if_splits)
  qed
qed

lemma reversals_length_le: "length (reversals series) \<le> length series + 2"
proof -
  let ?st = "(index_js series 0, index_js series 1,
       sub (ToNumber (index_js series 1)) (ToNumber (index_js series 0)), [(0, index_js series 0)])"
  obtain a b c r where l: "reversals_loop 1 (drop 1 series) ?st = (a, b, c, r)"
    using prod_cases4 by blast
  from reversals_loop_length_le[of 1 "drop 1 series" ?st] l
  have "length r \<le> 1 + (length series - 1)" by simp
  with l show ?thesis by (simp add: reversals_def Let_def)
qed

lemma reversals_loop_values:
  "set xs \<subseteq> S \<Longrightarrow> \<exists>s\<in>S. x = Number s \<Longrightarrow> \<forall>p\<in>set result. \<exists>s\<in>S. snd p = Number s \<Longrightarrow>
   reversals_loop i xs (xLast, x, dLast, result) = (a, x', d, result') \<Longrightarrow>
   (\<exists>s\<in>S. x' = Number s) \<and> (\<forall>p\<in>set result'. \<exists>s\<in>S. snd p = Number s)"
proof (induction xs arbitrary: i xLast x dLast result)
  case Nil
  then show ?case by simp
next
  case (Cons xNext rest)
  from Cons.prems(1) have rest: "set rest \<subseteq> S" and nx: "\<exists>s\<in>S. Number xNext = Number s" by auto
  show ?case
  proof (cases "strict_eq (Number xNext) x")
    case True
    with Cons.prems(4) have "reversals_loop (i + 1) rest (xLast, x, dLast, result) = (a, x', d, result')"
      by simp
    from Cons.IH[OF rest Cons.prems(2,3) this] show ?thesis .
  next
    case False
    let ?dNext = "sub xNext (ToNumber x)"
    let ?res = "if lt (mul dLast ?dNext) (Fin 0) then result @ [(i, x)] else result"
    from False Cons.prems(4)
    have run: "reversals_loop (i + 1) rest (x, Number xNext, ?dNext, ?res) = (a, x', d, result')"
      by (simp add: Let_def)
    have "\<forall>p\<in>set ?res. \<exists>s\<in>S. snd p = Number s" using Cons.prems(2,3) by auto
    from Cons.IH[OF rest nx this run] show ?thesis .
  qed
qed

lemma reversals_values:
  assumes "2 \<le> length series"
  shows "\<forall>p\<in>set (reversals series). \<exists>s\<in>set series. snd p = Number s"
proof -
  let ?x0 = "index_js series 0" and ?x1 = "index_js series 1"
  obtain a x' d r where l: "reversals_loop 1 (drop 1 series)
      (?x0, ?x1, sub (ToNumber ?x1) (ToNumber ?x0), [(0, ?x0)]) = (a, x', d, r)"
    using prod_cases4 by blast
  have "set (drop 1 series) \<subseteq> set series" by (rule set_drop_subset)
  moreover from assms have "\<exists>s\<in>set series. ?x1 = Number s" by (auto simp: index_js_def)
  moreover from assms have "\<forall>p\<in>set [(0, ?x0)]. \<exists>s\<in>set series. snd p = Number s"
    by (auto simp: index_js_def)
  ultimately have "(\<exists>s\<in>set series. x' = Number s) \<and> (\<forall>p\<in>set r. \<exists>s\<in>set series. snd p = Number s)"
    using l by (rule reversals_loop_values)
  with l show ?thesis by (simp add: reversals_def Let_def)
qed

lemma closeLoop_made_of:
  "closeLoop pts cyc = (pts', cyc') \<Longrightarrow> set pts \<subseteq> S \<Longrightarrow> \<forall>c\<in>set cyc. made_of S c \<Longrightarrow>
   set pts' \<subseteq> S \<and> (\<forall>c\<in>set cyc'. made_of S c)"
proof (induction pts cyc arbitrary: pts' cyc' rule: closeLoop.induct)
  case (1 points cycles)
  show ?case
  proof (cases "3 \<le> length points \<and> \<not> lt (top_X points) (top_Y points)")
    case False
    then have "closeLoop points cycles = (points, cycles)" by (intro closeLoop_stop) auto
    with "1.prems" show ?thesis by simp
  next
    case T: True
    then have ge: "3 \<le> length points" and nlt: "\<not> lt (top_X points) (top_Y points)" by simp_all
    show ?thesis
    proof (cases "length points = 3")
      case True
      from True have "points ! 0 \<in> set points" "points ! 1 \<in> set points" by simp_all
      with "1.prems"(2) have "made_of S (formatOutput (points ! 0) (points ! 1) (1 / 2))"
        unfolding made_of_def by blast
      with "1.prems"(3)
      have cyc: "\<forall>c\<in>set (cycles @ [formatOutput (points ! 0) (points ! 1) (1 / 2)]). made_of S c"
        by simp
      have "set (tl points) \<subseteq> set points" by (cases points) auto
      with "1.prems"(2) have pts: "set (tl points) \<subseteq> S" by blast
      from "1.prems"(1) have "closeLoop (tl points) (cycles @ [formatOutput (points ! 0) (points ! 1) (1 / 2)])
          = (pts', cyc')"
        by (simp only: closeLoop_half[OF True nlt])
      from "1.IH"(1)[OF ge nlt True this pts cyc] show ?thesis .
    next
      case False
      with ge have gt: "3 < length points" by simp
      then have "points ! (length points - 3) \<in> set points" "points ! (length points - 2) \<in> set points"
        by simp_all
      with "1.prems"(2)
      have "made_of S (formatOutput (points ! (length points - 3)) (points ! (length points - 2)) 1)"
        unfolding made_of_def by blast
      with "1.prems"(3)
      have cyc: "\<forall>c\<in>set (cycles @ [formatOutput (points ! (length points - 3))
            (points ! (length points - 2)) 1]). made_of S c"
        by simp
      from gt have "points \<noteq> []" by auto
      then have "set (butlast (butlast (butlast points)) @ [last points]) \<subseteq> set points"
        by (auto dest: in_set_butlastD)
      with "1.prems"(2) have pts: "set (butlast (butlast (butlast points)) @ [last points]) \<subseteq> S"
        by blast
      from "1.prems"(1) have "closeLoop (butlast (butlast (butlast points)) @ [last points])
            (cycles @ [formatOutput (points ! (length points - 3)) (points ! (length points - 2)) 1])
          = (pts', cyc')"
        by (simp only: closeLoop_full[OF gt nlt])
      from "1.IH"(2)[OF ge nlt False this pts cyc] show ?thesis .
    qed
  qed
qed

lemma foldl_feed_made_of:
  "foldl feed (pts, cyc) revs = (pts', cyc') \<Longrightarrow> set revs \<subseteq> S \<Longrightarrow> set pts \<subseteq> S \<Longrightarrow>
   \<forall>c\<in>set cyc. made_of S c \<Longrightarrow> set pts' \<subseteq> S \<and> (\<forall>c\<in>set cyc'. made_of S c)"
proof (induction revs arbitrary: pts cyc)
  case Nil
  then show ?case by simp
next
  case (Cons p revs)
  obtain pts1 cyc1 where c: "closeLoop (pts @ [p]) cyc = (pts1, cyc1)"
    by (cases "closeLoop (pts @ [p]) cyc")
  from Cons.prems(2,3) have "set (pts @ [p]) \<subseteq> S" by simp
  from closeLoop_made_of[OF c this Cons.prems(4)]
  have 1: "set pts1 \<subseteq> S" "\<forall>c\<in>set cyc1. made_of S c" by simp_all
  from c have "feed (pts, cyc) p = (pts1, cyc1)" by (simp add: feed_def)
  with Cons.prems(1) have "foldl feed (pts1, cyc1) revs = (pts', cyc')" by simp
  moreover from Cons.prems(2) have "set revs \<subseteq> S" by simp
  ultimately show ?case using 1 by (rule Cons.IH)
qed

lemma drain_made_of:
  "set pts \<subseteq> S \<Longrightarrow> \<forall>c\<in>set cyc. made_of S c \<Longrightarrow> \<forall>c\<in>set (drain pts cyc). made_of S c"
proof (induction pts cyc rule: drain.induct)
  case (1 p q rest cycles)
  from "1.prems"(1) have "made_of S (formatOutput p q (1 / 2))" unfolding made_of_def by auto
  with "1.prems" have "\<forall>c\<in>set (drain (q # rest) (cycles @ [formatOutput p q (1 / 2)])). made_of S c"
    by (intro "1.IH") auto
  then show ?case by simp
qed simp_all

lemma extractCycles_from_made_of: "\<forall>c\<in>set (extractCycles_from revs). made_of (set revs) c"
proof -
  obtain pts cyc where f: "foldl feed ([], []) revs = (pts, cyc)"
    by (cases "foldl feed ([], []) revs")
  from foldl_feed_made_of[OF f, of "set revs"]
  have "set pts \<subseteq> set revs" "\<forall>c\<in>set cyc. made_of (set revs) c" by simp_all
  then have "\<forall>c\<in>set (drain pts cyc). made_of (set revs) c" by (rule drain_made_of)
  with f show ?thesis by (simp add: extractCycles_from_def)
qed

lemma extractCycles_ranges:
  assumes "2 \<le> length series" and "c \<in> set (extractCycles series)"
  shows "\<exists>x\<in>set series. \<exists>y\<in>set series. rng c = abs_js (sub x y)"
proof -
  from assms(2) extractCycles_from_made_of[of "reversals series"]
  have "made_of (set (reversals series)) c" by (simp add: extractCycles_def)
  then obtain p q where pq: "p \<in> set (reversals series)" "q \<in> set (reversals series)"
      and r: "rng c = abs_js (sub (ToNumber (snd p)) (ToNumber (snd q)))"
    by (auto simp: made_of_def formatOutput_def Let_def)
  from pq reversals_values[OF assms(1)]
  obtain x y where "x \<in> set series" "snd p = Number x" "y \<in> set series" "snd q = Number y"
    by blast
  with r show ?thesis by auto
qed

text \<open>
  C9, as amended: for every input signal, reversal extraction, the inner loop of the cycle
  extraction and the final drain terminate, and so does the aggregation without binning.
  With binning the whole pipeline returns a histogram for a signal of at least two samples
  when, for any two samples \<open>x\<close> and \<open>y\<close>, the range \<open>|x - y|\<close> that the code computes did not
  overflow and its bucket number \<open>ceil(|x - y| / binWidth)\<close> is a finite number, at most
  \<open>2^53\<close>. The loops of \<open>reversals\<close> and the drain are structural recursions, the inner loop
  of \<open>extractCycles\<close> terminates as the stack shrinks at every turn (the measure of
  \<open>closeLoop\<close>), and the densifying loop, the only one that may run forever, ends under
  that condition. Every turn of the inner loop and of the drain emits one cycle, and there
  are fewer cycles than reversals, which are at most two more than the samples.
\<close>

theorem pipeline_terminates:
  "(\<exists>h. countCycles series None = Some (Inr h))
   \<and> (2 \<le> length series
       \<and> (\<forall>x\<in>set series. \<forall>y\<in>set series.
             no_overflow (abs_js (sub x y)) \<and> reachable (bucket_of b (abs_js (sub x y))))
        \<longrightarrow> (\<exists>h. countCycles series (Some b) = Some (Inr h)))
   \<and> length (extractCycles series) < length (reversals series)
   \<and> length (reversals series) \<le> length series + 2"
proof (intro conjI impI)
  show "\<exists>h. countCycles series None = Some (Inr h)"
    by (simp add: countCycles_def aggregate_None)
  show "\<exists>h. countCycles series (Some b) = Some (Inr h)"
    if H: "2 \<le> length series
       \<and> (\<forall>x\<in>set series. \<forall>y\<in>set series.
             no_overflow (abs_js (sub x y)) \<and> reachable (bucket_of b (abs_js (sub x y))))"
  proof -
    have "reachable (bucket_of b (rng c))" if "c \<in> set (extractCycles series)" for c
    proof -
      from extractCycles_ranges[OF H[THEN conjunct1] that]
      obtain x y where "x \<in> set series" "y \<in> set series" "rng c = abs_js (sub x y)" by blast
      with H show ?thesis by simp
    qed
    then have "list_all (\<lambda>c. reachable (bucket_of b (fst c)))
        (map (\<lambda>c. (rng c, count c)) (extractCycles series))"
      by (simp add: list_all_iff)
    then show ?thesis unfolding countCycles_def by (rule aggregate_returns_reachable)
  qed
  show "length (extractCycles series) < length (reversals series)"
    unfolding extractCycles_def by (rule extractCycles_from_length) (rule reversals_nonempty)
  show "length (reversals series) \<le> length series + 2" by (rule reversals_length_le)
qed

theorem pipeline_terminates_witness:
  "2 \<le> length [Fin 0, Fin 5, Fin 2, Fin 8, Fin 12]
   \<and> list_all (\<lambda>x. list_all (\<lambda>y. no_overflow (abs_js (sub x y))
          \<and> reachable (bucket_of (Fin 5) (abs_js (sub x y)))) [Fin 0, Fin 5, Fin 2, Fin 8, Fin 12])
        [Fin 0, Fin 5, Fin 2, Fin 8, Fin 12]
   \<and> (\<exists>h. countCycles [Fin 0, Fin 5, Fin 2, Fin 8, Fin 12] (Some (Fin 5)) = Some (Inr h))
   \<and> length (extractCycles [Fin 0, Fin 5, Fin 2, Fin 8, Fin 12])
       < length (reversals [Fin 0, Fin 5, Fin 2, Fin 8, Fin 12])"
proof -
  have l: "list_all (\<lambda>x. list_all (\<lambda>y. no_overflow (abs_js (sub x y))
          \<and> reachable (bucket_of (Fin 5) (abs_js (sub x y)))) [Fin 0, Fin 5, Fin 2, Fin 8, Fin 12])
        [Fin 0, Fin 5, Fin 2, Fin 8, Fin 12]"
    by (simp add: sub_def bucket_of_def ceiling_le_iff)
  then have r: "\<forall>x\<in>set [Fin 0, Fin 5, Fin 2, Fin 8, Fin 12]. \<forall>y\<in>set [Fin 0, Fin 5, Fin 2, Fin 8, Fin 12].
           no_overflow (abs_js (sub x y)) \<and> reachable (bucket_of (Fin 5) (abs_js (sub x y)))"
    unfolding list_all_iff .
  have n: "2 \<le> length [Fin 0, Fin 5, Fin 2, Fin 8, Fin 12]" by simp
  from pipeline_terminates[of "[Fin 0, Fin 5, Fin 2, Fin 8, Fin 12]" "Fin 5"] r n l
  show ?thesis by blast
qed

text \<open>
  C9 as stated fails when the bin width is 0: for the finite signal 0, 5, 2, 8, 12 the bucket
  numbers are infinite and the densifying loop never returns.
\<close>

theorem pipeline_zero_binsize_counterexample:
  "list_all is_finite [Fin 0, Fin 5, Fin 2, Fin 8, Fin 12]
   \<and> countCycles [Fin 0, Fin 5, Fin 2, Fin 8, Fin 12] (Some (Fin 0)) = None"
proof -
  have e: "map (\<lambda>c. (rng c, count c)) (extractCycles [Fin 0, Fin 5, Fin 2, Fin 8, Fin 12])
      = [(Fin 3, 1), (Fin 12, 1 / 2)]"
    by code_simp
  show ?thesis by (simp add: countCycles_def e aggregate_Some densify_PInf)
qed

end
